theory Spec2Isabelle
  imports Main "HOL-Library.Multiset" "HOL-Library.Sublist"
begin

section \<open>Constants and data of main.go\<close>

text \<open>
  The service of \<^verbatim>\<open>main.go\<close>: a POST handler that fetches a batch of URLs with a pool of
  worker goroutines, collects the outcomes from a channel and answers with one JSON
  document; an admission gate that bounds the number of requests served at once.

  Go values are modelled as follows. A \<^verbatim>\<open>string\<close> and a \<^verbatim>\<open>[]byte\<close> are byte lists
  (\<^typ>\<open>string\<close>). A Go \<^verbatim>\<open>error\<close> is represented by its message (what \<^verbatim>\<open>Error()\<close>
  returns); the \<^verbatim>\<open>nil\<close> error is \<^term>\<open>None\<close>. A slice that the code only ever builds with
  \<^verbatim>\<open>append\<close> from \<^verbatim>\<open>nil\<close> is a list, \<^verbatim>\<open>nil\<close> being \<^term>\<open>[]\<close> (an appended slice
  is never empty, so the empty list stands for \<^verbatim>\<open>nil\<close> only).
\<close>

definition MaxUrlCount :: nat where
  "MaxUrlCount = 20"

definition MaxSimultaneousClients :: nat where
  "MaxSimultaneousClients = 100"

definition MaxSimultaneousUrlRequests :: nat where
  "MaxSimultaneousUrlRequests = 4"

type_synonym bytes = string

text \<open>\<^verbatim>\<open>type UrlResult struct { Url string; Response []byte; error error }\<close>\<close>

record UrlResult =
  Url :: string
  Response :: bytes
  error :: "string option"

text \<open>\<^verbatim>\<open>type ResultToUser struct { Error string; Responses []UrlResult }\<close>\<close>

record ResultToUser =
  Error :: string
  Responses :: "UrlResult list"

section \<open>RequestUrl\<close>

text \<open>
  What \<^verbatim>\<open>client.Get(url)\<close> hands back when it does not fail: a response with a status
  code and a body. \<^verbatim>\<open>ioutil.ReadAll(resp.Body)\<close> returns the bytes read and an error
  (\<^verbatim>\<open>nil\<close> at end of file); \<open>ReadAll\<close> is that pair. The one second timeout of the
  client covers the whole exchange, the reading of the body included, so an expired
  timeout shows up as an error of \<^verbatim>\<open>Get\<close> or as an error of \<^verbatim>\<open>ReadAll\<close>.
\<close>

record http_Response =
  StatusCode :: nat
  ReadAll :: "bytes \<times> string option"

text \<open>
  \<^verbatim>\<open>
  func RequestUrl(url string) ([]byte, error) {
      client := http.Client{Timeout: RequestUrlTimeout}
      resp, err := client.Get(url)
      if err != nil { return []byte{}, err }
      return ioutil.ReadAll(resp.Body)
  }
  \<close>
  The network is the parameter \<open>get\<close>: the outcome of \<^verbatim>\<open>client.Get\<close> for a URL.
\<close>

definition RequestUrl :: "(string \<Rightarrow> string + http_Response) \<Rightarrow> string \<Rightarrow> bytes \<times> string option" where
  "RequestUrl get url =
     (case get url of
        Inl err \<Rightarrow> ([], Some err)
      | Inr resp \<Rightarrow> ReadAll resp)"

section \<open>The HTTP and JSON library calls of Handle\<close>

text \<open>
  \<^verbatim>\<open>http.Error(rw, msg, code)\<close> answers with the status code, a plain text content type
  and the message followed by a newline. Writing a body without an explicit status, as
  the success path of Handle does, answers with status 200.
\<close>

record reply =
  status :: nat
  content_type :: string
  body :: bytes

definition http_Error :: "string \<Rightarrow> nat \<Rightarrow> reply" where
  "http_Error msg code =
     \<lparr>status = code, content_type = ''text/plain; charset=utf-8'', body = msg @ [CHR 0x0A]\<rparr>"

definition StatusMethodNotAllowed :: nat where
  "StatusMethodNotAllowed = 405"

definition StatusBadRequest :: nat where
  "StatusBadRequest = 400"

definition StatusInternalServerError :: nat where
  "StatusInternalServerError = 500"

definition StatusOK :: nat where
  "StatusOK = 200"

text \<open>\<^verbatim>\<open>http.StatusText\<close>, on the two codes the program passes to it.\<close>

definition http_StatusText :: "nat \<Rightarrow> string" where
  "http_StatusText code =
     (if code = 405 then ''Method Not Allowed''
      else if code = 500 then ''Internal Server Error''
      else [])"

text \<open>The verb \<^verbatim>\<open>%d\<close> of \<^verbatim>\<open>fmt.Sprintf\<close> on a non-negative int.\<close>

fun digits :: "nat \<Rightarrow> nat \<Rightarrow> string" where
  "digits 0 n = []"
| "digits (Suc fuel) n =
     (if n < 10 then [''0123456789'' ! n]
      else digits fuel (n div 10) @ [''0123456789'' ! (n mod 10)])"

definition Sprintf_d :: "nat \<Rightarrow> string" where
  "Sprintf_d n = digits (Suc n) n"

text \<open>
  \<^verbatim>\<open>json.Marshal\<close> on a \<^verbatim>\<open>ResultToUser\<close>, following the documentation of
  \<^verbatim>\<open>encoding/json\<close>: a struct is an object whose keys are the field tags, in the order
  of the fields, without the unexported field \<^verbatim>\<open>error\<close>; a nil slice is \<^verbatim>\<open>null\<close>;
  a \<^verbatim>\<open>[]byte\<close> is a base64 string (standard alphabet, padded); a string is quoted, with
  the quote, the backslash, the control characters and \<^verbatim>\<open><\<close>, \<^verbatim>\<open>>\<close>, \<^verbatim>\<open>&\<close> escaped.
  Bytes from 0x80 on are copied: the model takes strings to be valid UTF-8 without the
  line and paragraph separators U+2028 and U+2029, which the library would rewrite.
\<close>

definition hex :: "nat \<Rightarrow> char" where
  "hex n = ''0123456789abcdef'' ! n"

definition json_char :: "char \<Rightarrow> string" where
  "json_char c =
     (let b = (of_char c :: nat) in
      if b = 0x22 \<or> b = 0x5C then [CHR 0x5C, c]
      else if b = 0x08 then [CHR 0x5C, CHR ''b'']
      else if b = 0x0C then [CHR 0x5C, CHR ''f'']
      else if b = 0x0A then [CHR 0x5C, CHR ''n'']
      else if b = 0x0D then [CHR 0x5C, CHR ''r'']
      else if b = 0x09 then [CHR 0x5C, CHR ''t'']
      else if b < 0x20 \<or> b = 0x3C \<or> b = 0x3E \<or> b = 0x26
        then [CHR 0x5C, CHR ''u'', CHR ''0'', CHR ''0'', hex (b div 16), hex (b mod 16)]
      else [c])"

definition json_string :: "string \<Rightarrow> string" where
  "json_string s = [CHR 0x22] @ concat (map json_char s) @ [CHR 0x22]"

definition b64 :: "nat \<Rightarrow> char" where
  "b64 n = ''ABCDEFGHIJKLMNOPQRSTUVWXYZabcdefghijklmnopqrstuvwxyz0123456789+/'' ! n"

fun base64 :: "nat list \<Rightarrow> string" where
  "base64 [] = []"
| "base64 [a] = [b64 (a div 4), b64 ((a mod 4) * 16), CHR ''='', CHR ''='']"
| "base64 [a, b] =
     [b64 (a div 4), b64 ((a mod 4) * 16 + b div 16), b64 ((b mod 16) * 4), CHR ''='']"
| "base64 (a # b # c # rest) =
     [b64 (a div 4), b64 ((a mod 4) * 16 + b div 16), b64 ((b mod 16) * 4 + c div 64),
      b64 (c mod 64)] @ base64 rest"

definition json_bytes :: "bytes \<Rightarrow> string" where
  "json_bytes bs = [CHR 0x22] @ base64 (map of_char bs) @ [CHR 0x22]"

fun commas :: "string list \<Rightarrow> string" where
  "commas [] = []"
| "commas [x] = x"
| "commas (x # y # ys) = x @ '','' @ commas (y # ys)"

definition json_UrlResult :: "UrlResult \<Rightarrow> string" where
  \<open>json_UrlResult r =
     ''{"url":'' @ json_string (Url r) @ '',"response":'' @ json_bytes (Response r) @ ''}''\<close>

definition json_ResultToUser :: "ResultToUser \<Rightarrow> string" where
  \<open>json_ResultToUser r =
     ''{"error":'' @ json_string (Error r) @ '',"responses":'' @
     (if Responses r = [] then ''null''
      else ''['' @ commas (map json_UrlResult (Responses r)) @ '']'') @ ''}''\<close>

text \<open>No value of this struct makes \<^verbatim>\<open>json.Marshal\<close> fail: its error is always nil.\<close>

definition json_Marshal :: "ResultToUser \<Rightarrow> string + bytes" where
  "json_Marshal r = Inr (json_ResultToUser r)"

section \<open>One request: the goroutines of Handle and QueryUrls\<close>

text \<open>
  A request is served by the goroutine running \<^verbatim>\<open>Handle\<close>, the goroutine running
  \<^verbatim>\<open>QueryUrls\<close> and the worker goroutines that \<^verbatim>\<open>QueryUrls\<close> starts. They share the
  channels \<^verbatim>\<open>tasks\<close>, \<^verbatim>\<open>pipeline\<close> (\<^verbatim>\<open>out\<close> in QueryUrls), \<^verbatim>\<open>quit\<close> and the channel of
  \<^verbatim>\<open>CloseNotify\<close>. The model is an interleaving semantics: a state holds the channels,
  the local variables and the program point of every goroutine, and an event names
  the goroutine that moves. A \<^verbatim>\<open>select\<close> with several ready cases may take any of them
  (the language picks one at random), so each case is an event of its own. A step that
  the language would block is not enabled (\<^term>\<open>None\<close>).
\<close>

record http_Request =
  Method :: string
  Body :: "string + bytes"

text \<open>
  The surroundings of a request: what \<^verbatim>\<open>json.Unmarshal\<close> makes of a body (an error, or
  the field \<^verbatim>\<open>Urls\<close>), and what \<^verbatim>\<open>client.Get\<close> gives for a URL. \<open>Get k\<close> is the outcome
  of the call made when \<open>k\<close> calls of the request came before it, so two fetches of
  one URL may differ.
\<close>

record world =
  Unmarshal :: "bytes \<Rightarrow> string + string list"
  Get :: "nat \<Rightarrow> string \<Rightarrow> string + http_Response"

text \<open>
  Program points. Handle: before its first statement; at the \<^verbatim>\<open>select\<close> of iteration
  \<open>i\<close> of the loop (or at the loop test that ends it); at \<^verbatim>\<open>wait.Wait()\<close>; before the
  \<^verbatim>\<open>if needToSend\<close>; returned. QueryUrls: not started; in the loop that starts the
  workers, \<open>i\<close> of them started; in the loop that sends the remaining urls to \<^verbatim>\<open>tasks\<close>
  (and closes it at the end); at \<^verbatim>\<open>wg.Wait()\<close>; returned (its deferred
  \<^verbatim>\<open>parentWg.Done()\<close> has run). A worker: at its \<^verbatim>\<open>select\<close>; holding a task, before
  \<^verbatim>\<open>RequestUrl\<close>; holding the result, before the send on \<^verbatim>\<open>out\<close>; returned (its deferred
  \<^verbatim>\<open>wg.Done()\<close> has run).
\<close>

datatype handler_pc = HEntry | HLoop nat | HWait | HSend | HReturned

datatype query_pc = QIdle | QSpawn nat | QLoad "string list" | QWait | QDone

datatype worker = WIdle | WFetching string | WSending UrlResult | WExited

text \<open>
  The fields \<open>drawn\<close>, \<open>fetched\<close> and \<open>sent\<close> are logs that the program does not
  keep: the tasks received from \<^verbatim>\<open>tasks\<close>, the calls of \<^verbatim>\<open>RequestUrl\<close> with their
  results, and the values sent on \<^verbatim>\<open>out\<close>, each in the order of the events. \<open>rw\<close> is
  what has been written to the response writer. \<open>connectionClose\<close> says that the
  channel of \<^verbatim>\<open>CloseNotify\<close> holds its value: the client has gone.
\<close>

record state =
  request :: http_Request
  Urls :: "string list"
  workersCount :: nat
  tasks :: "string list"
  tasks_closed :: bool
  pipeline :: "UrlResult list"
  quit :: bool
  connectionClose :: bool
  results :: ResultToUser
  needToSend :: bool
  handler :: handler_pc
  query :: query_pc
  workers :: "worker list"
  rw :: "reply option"
  drawn :: "string list"
  fetched :: "UrlResult list"
  sent :: "UrlResult list"

definition init :: "http_Request \<Rightarrow> state" where
  "init r =
     \<lparr>request = r, Urls = [], workersCount = 0, tasks = [], tasks_closed = False,
      pipeline = [], quit = False, connectionClose = False,
      results = \<lparr>Error = [], Responses = []\<rparr>, needToSend = False,
      handler = HEntry, query = QIdle, workers = [], rw = None,
      drawn = [], fetched = [], sent = []\<rparr>"

datatype event =
    ClientGone
  | HandleStep
  | HandleSelectClose
  | HandleSelectPipeline
  | QueryStep
  | WorkerSelectTask nat
  | WorkerSelectQuit nat
  | WorkerStep nat

subsection \<open>Handle\<close>

text \<open>
  From the first statement of Handle to the \<^verbatim>\<open>select\<close> of the loop: the four checks,
  each answering with \<^verbatim>\<open>http.Error\<close> and returning, then the channels, the worker count
  and \<^verbatim>\<open>go QueryUrls(...)\<close>.
\<close>

definition reject :: "string \<Rightarrow> nat \<Rightarrow> state \<Rightarrow> state" where
  "reject msg code s = s\<lparr>rw := Some (http_Error msg code), handler := HReturned\<rparr>"

definition Handle_entry :: "world \<Rightarrow> state \<Rightarrow> state" where
  "Handle_entry w s =
     (if Method (request s) \<noteq> ''POST''
      then reject (http_StatusText StatusMethodNotAllowed) StatusMethodNotAllowed s
      else case Body (request s) of
        Inl err \<Rightarrow> reject ''Could not read body'' StatusBadRequest s
      | Inr b \<Rightarrow>
          (case Unmarshal w b of
             Inl err \<Rightarrow> reject ''Incorrect json in request'' StatusBadRequest s
           | Inr us \<Rightarrow>
               if length us > MaxUrlCount
               then reject (''Maximum allowed urls in one request is '' @ Sprintf_d MaxUrlCount)
                      StatusBadRequest s
               else s\<lparr>Urls := us,
                      results := \<lparr>Error = [], Responses = []\<rparr>,
                      pipeline := [],
                      quit := False,
                      workersCount :=
                        (if length us < MaxSimultaneousUrlRequests then length us
                         else MaxSimultaneousUrlRequests),
                      query := QSpawn 0,
                      needToSend := True,
                      handler := HLoop 0\<rparr>))"

text \<open>The case \<^verbatim>\<open><-connectionClose\<close> of the \<^verbatim>\<open>select\<close>.\<close>

definition Handle_select_close :: "state \<Rightarrow> state option" where
  "Handle_select_close s =
     (case handler s of
        HLoop i \<Rightarrow>
          if i < length (Urls s) \<and> connectionClose s
          then Some (s\<lparr>quit := True, needToSend := False, handler := HWait\<rparr>)
          else None
      | _ \<Rightarrow> None)"

text \<open>The case \<^verbatim>\<open>res := <-pipeline\<close> of the \<^verbatim>\<open>select\<close>.\<close>

definition Handle_select_pipeline :: "state \<Rightarrow> state option" where
  "Handle_select_pipeline s =
     (case handler s of
        HLoop i \<Rightarrow>
          if i < length (Urls s) then
            (case pipeline s of
               [] \<Rightarrow> None
             | res # rest \<Rightarrow>
                 (case error res of
                    Some err \<Rightarrow>
                      Some (s\<lparr>pipeline := rest, quit := True,
                              results := \<lparr>Error = err, Responses = []\<rparr>,
                              handler := HWait\<rparr>)
                  | None \<Rightarrow>
                      Some (s\<lparr>pipeline := rest,
                              results := (results s)\<lparr>Responses := Responses (results s) @ [res]\<rparr>,
                              handler := HLoop (Suc i)\<rparr>)))
          else None
      | _ \<Rightarrow> None)"

text \<open>From \<^verbatim>\<open>if needToSend\<close> to the end of Handle.\<close>

definition Handle_send :: "state \<Rightarrow> state" where
  "Handle_send s =
     (if needToSend s then
        (case json_Marshal (results s) of
           Inl err \<Rightarrow>
             reject (http_StatusText StatusInternalServerError) StatusInternalServerError s
         | Inr res \<Rightarrow>
             s\<lparr>rw := Some \<lparr>status = StatusOK, content_type = ''application/json'', body = res\<rparr>,
               handler := HReturned\<rparr>)
      else s\<lparr>handler := HReturned\<rparr>)"

text \<open>
  The steps of Handle outside the \<^verbatim>\<open>select\<close>: the entry, the loop test that fails,
  \<^verbatim>\<open>wait.Wait()\<close> (which returns once QueryUrls has returned) and the sending.
\<close>

definition Handle_step :: "world \<Rightarrow> state \<Rightarrow> state option" where
  "Handle_step w s =
     (case handler s of
        HEntry \<Rightarrow> Some (Handle_entry w s)
      | HLoop i \<Rightarrow> if i < length (Urls s) then None else Some (s\<lparr>handler := HWait\<rparr>)
      | HWait \<Rightarrow> if query s = QDone then Some (s\<lparr>handler := HSend\<rparr>) else None
      | HSend \<Rightarrow> Some (Handle_send s)
      | HReturned \<Rightarrow> None)"

subsection \<open>QueryUrls\<close>

text \<open>
  The body of QueryUrls, one statement a step: start a worker while \<open>i < workersCount\<close>;
  send the next url on \<^verbatim>\<open>tasks\<close> (a channel of capacity \<open>len(urls)\<close>, so the send waits
  while the channel is full); close \<^verbatim>\<open>tasks\<close>; return from \<^verbatim>\<open>wg.Wait()\<close> once every
  worker has returned.
\<close>

definition Query_step :: "state \<Rightarrow> state option" where
  "Query_step s =
     (case query s of
        QIdle \<Rightarrow> None
      | QSpawn i \<Rightarrow>
          if i < workersCount s
          then Some (s\<lparr>workers := workers s @ [WIdle], query := QSpawn (Suc i)\<rparr>)
          else Some (s\<lparr>query := QLoad (Urls s)\<rparr>)
      | QLoad [] \<Rightarrow> Some (s\<lparr>tasks_closed := True, query := QWait\<rparr>)
      | QLoad (url # us) \<Rightarrow>
          if length (tasks s) < length (Urls s)
          then Some (s\<lparr>tasks := tasks s @ [url], query := QLoad us\<rparr>)
          else None
      | QWait \<Rightarrow> if list_all (\<lambda>k. k = WExited) (workers s) then Some (s\<lparr>query := QDone\<rparr>) else None
      | QDone \<Rightarrow> None)"

subsection \<open>The workers\<close>

text \<open>
  The case \<^verbatim>\<open>task, ok := <-tasks\<close> of the worker's \<^verbatim>\<open>select\<close>: ready with a task when the
  channel holds one, ready with \<^verbatim>\<open>ok == false\<close> when it is empty and closed.
\<close>

definition Worker_select_task :: "nat \<Rightarrow> state \<Rightarrow> state option" where
  "Worker_select_task i s =
     (if i < length (workers s) \<and> workers s ! i = WIdle then
        (case tasks s of
           task # rest \<Rightarrow>
             Some (s\<lparr>tasks := rest, drawn := drawn s @ [task],
                     workers := (workers s)[i := WFetching task]\<rparr>)
         | [] \<Rightarrow>
             if tasks_closed s then Some (s\<lparr>workers := (workers s)[i := WExited]\<rparr>) else None)
      else None)"

text \<open>The case \<^verbatim>\<open><-quit\<close> of the worker's \<^verbatim>\<open>select\<close>: ready once \<^verbatim>\<open>quit\<close> is closed.\<close>

definition Worker_select_quit :: "nat \<Rightarrow> state \<Rightarrow> state option" where
  "Worker_select_quit i s =
     (if i < length (workers s) \<and> workers s ! i = WIdle \<and> quit s
      then Some (s\<lparr>workers := (workers s)[i := WExited]\<rparr>)
      else None)"

text \<open>
  \<^verbatim>\<open>result, err := RequestUrl(task)\<close>, then \<^verbatim>\<open>out <- UrlResult{task, result, err}\<close>; the
  send waits while \<^verbatim>\<open>out\<close>, of capacity \<open>len(request.Urls)\<close>, is full.
\<close>

definition Worker_step :: "world \<Rightarrow> nat \<Rightarrow> state \<Rightarrow> state option" where
  "Worker_step w i s =
     (if i < length (workers s) then
        (case workers s ! i of
           WFetching task \<Rightarrow>
             (let (result, err) = RequestUrl (Get w (length (fetched s))) task;
                  r = \<lparr>Url = task, Response = result, error = err\<rparr>
              in Some (s\<lparr>fetched := fetched s @ [r], workers := (workers s)[i := WSending r]\<rparr>))
         | WSending r \<Rightarrow>
             if length (pipeline s) < length (Urls s)
             then Some (s\<lparr>pipeline := pipeline s @ [r], sent := sent s @ [r],
                          workers := (workers s)[i := WIdle]\<rparr>)
             else None
         | _ \<Rightarrow> None)
      else None)"

subsection \<open>Steps and executions\<close>

text \<open>
  The client may go away at any moment; the channel of \<^verbatim>\<open>CloseNotify\<close> then holds its
  one value. Handle receives from that channel at most once (it leaves the loop when it
  does), so the model keeps the flag set.
\<close>

definition step :: "world \<Rightarrow> event \<Rightarrow> state \<Rightarrow> state option" where
  "step w e s =
     (case e of
        ClientGone \<Rightarrow> if connectionClose s then None else Some (s\<lparr>connectionClose := True\<rparr>)
      | HandleStep \<Rightarrow> Handle_step w s
      | HandleSelectClose \<Rightarrow> Handle_select_close s
      | HandleSelectPipeline \<Rightarrow> Handle_select_pipeline s
      | QueryStep \<Rightarrow> Query_step s
      | WorkerSelectTask i \<Rightarrow> Worker_select_task i s
      | WorkerSelectQuit i \<Rightarrow> Worker_select_quit i s
      | WorkerStep i \<Rightarrow> Worker_step w i s)"

text \<open>An execution: the events of a schedule, one after the other, each enabled.\<close>

fun exec :: "world \<Rightarrow> event list \<Rightarrow> state \<Rightarrow> state option" where
  "exec w [] s = Some s"
| "exec w (e # es) s = (case step w e s of None \<Rightarrow> None | Some s' \<Rightarrow> exec w es s')"

section \<open>Invariants of a request\<close>

definition succeeded :: "UrlResult \<Rightarrow> bool" where
  "succeeded x \<longleftrightarrow> error x = None"

fun task_of :: "worker \<Rightarrow> string list" where
  "task_of (WFetching task) = [task]"
| "task_of k = []"

fun result_of :: "worker \<Rightarrow> UrlResult list" where
  "result_of (WSending r) = [r]"
| "result_of k = []"

definition fetching :: "worker list \<Rightarrow> string list" where
  "fetching ws = concat (map task_of ws)"

definition sending :: "worker list \<Rightarrow> UrlResult list" where
  "sending ws = concat (map result_of ws)"

fun unloaded :: "query_pc \<Rightarrow> string list \<Rightarrow> string list" where
  "unloaded QIdle urls = urls"
| "unloaded (QSpawn i) urls = urls"
| "unloaded (QLoad us) urls = us"
| "unloaded QWait urls = []"
| "unloaded QDone urls = []"

definition inv_queue :: "state \<Rightarrow> bool" where
  "inv_queue s \<longleftrightarrow>
     drawn s @ tasks s @ unloaded (query s) (Urls s) = Urls s \<and>
     (tasks_closed s \<longleftrightarrow> query s = QWait \<or> query s = QDone)"

definition inv_logs :: "world \<Rightarrow> state \<Rightarrow> bool" where
  "inv_logs w s \<longleftrightarrow>
     mset (drawn s) = mset (map Url (fetched s)) + mset (fetching (workers s)) \<and>
     mset (fetched s) = mset (sent s) + mset (sending (workers s)) \<and>
     suffix (pipeline s) (sent s) \<and>
     (\<forall>k < length (fetched s).
        (Response (fetched s ! k), error (fetched s ! k)) =
          RequestUrl (Get w k) (Url (fetched s ! k)))"

fun pool :: "query_pc \<Rightarrow> worker list \<Rightarrow> nat \<Rightarrow> bool" where
  "pool QIdle ws n \<longleftrightarrow> ws = []"
| "pool (QSpawn i) ws n \<longleftrightarrow> length ws = i \<and> i \<le> n"
| "pool (QLoad us) ws n \<longleftrightarrow> length ws = n"
| "pool QWait ws n \<longleftrightarrow> length ws = n"
| "pool QDone ws n \<longleftrightarrow> length ws = n \<and> list_all (\<lambda>k. k = WExited) ws"

definition inv_pool :: "state \<Rightarrow> bool" where
  "inv_pool s \<longleftrightarrow>
     workersCount s = min MaxSimultaneousUrlRequests (length (Urls s)) \<and>
     length (Urls s) \<le> MaxUrlCount \<and>
     pool (query s) (workers s) (min MaxSimultaneousUrlRequests (length (Urls s))) \<and>
     (\<not> quit s \<and> WExited \<in> set (workers s) \<longrightarrow> tasks s = [] \<and> tasks_closed s)"

fun collected :: "handler_pc \<Rightarrow> nat \<Rightarrow> nat" where
  "collected (HLoop i) n = i"
| "collected pc n = n"

fun in_loop :: "handler_pc \<Rightarrow> bool" where
  "in_loop (HLoop i) = True"
| "in_loop pc = False"

definition first_failure :: "UrlResult list \<Rightarrow> string option" where
  "first_failure xs = (case dropWhile succeeded xs of [] \<Rightarrow> None | x # rest \<Rightarrow> error x)"

definition answer :: "state \<Rightarrow> reply option" where
  "answer s =
     (if needToSend s
      then Some \<lparr>status = StatusOK, content_type = ''application/json'',
                 body = json_ResultToUser (results s)\<rparr>
      else None)"

definition idle :: "state \<Rightarrow> bool" where
  "idle s \<longleftrightarrow>
     Urls s = [] \<and> workersCount s = 0 \<and> tasks s = [] \<and> \<not> tasks_closed s \<and>
     pipeline s = [] \<and> drawn s = [] \<and> fetched s = [] \<and> sent s = [] \<and>
     (handler s = HEntry \<and> rw s = None \<or> handler s = HReturned \<and> rw s \<noteq> None)"

definition inv_collect :: "state \<Rightarrow> bool" where
  "inv_collect s \<longleftrightarrow>
     (\<not> quit s \<longrightarrow>
        needToSend s \<and> Error (results s) = [] \<and>
        sent s = Responses (results s) @ pipeline s \<and>
        length (Responses (results s)) = collected (handler s) (length (Urls s)) \<and>
        collected (handler s) (length (Urls s)) \<le> length (Urls s)) \<and>
     (quit s \<and> needToSend s \<longrightarrow>
        Responses (results s) = [] \<and>
        first_failure (sent s) = Some (Error (results s))) \<and>
     (quit s \<and> \<not> needToSend s \<longrightarrow>
        connectionClose s \<and> Error (results s) = [] \<and>
        prefix (Responses (results s)) (sent s) \<and>
        length (Responses (results s)) < length (Urls s)) \<and>
     list_all succeeded (Responses (results s))"

definition inv_handler :: "state \<Rightarrow> bool" where
  "inv_handler s \<longleftrightarrow>
     (query s = QIdle \<longrightarrow> idle s) \<and>
     (query s \<noteq> QIdle \<longrightarrow>
        handler s \<noteq> HEntry \<and>
        inv_collect s \<and>
        (in_loop (handler s) \<longrightarrow> \<not> quit s) \<and>
        (handler s = HSend \<or> handler s = HReturned \<longrightarrow> query s = QDone) \<and>
        rw s = (if handler s = HReturned then answer s else None))"

definition accepted :: "world \<Rightarrow> http_Request \<Rightarrow> string list \<Rightarrow> bool" where
  "accepted w r us \<longleftrightarrow>
     Method r = ''POST'' \<and> (case Body r of Inl err \<Rightarrow> False | Inr b \<Rightarrow> Unmarshal w b = Inr us)"

definition inv_request :: "world \<Rightarrow> state \<Rightarrow> bool" where
  "inv_request w s \<longleftrightarrow> (query s \<noteq> QIdle \<longrightarrow> accepted w (request s) (Urls s))"

definition inv :: "world \<Rightarrow> state \<Rightarrow> bool" where
  "inv w s \<longleftrightarrow> inv_queue s \<and> inv_logs w s \<and> inv_pool s \<and> inv_handler s \<and> inv_request w s"

section \<open>A measure of the work left\<close>

text \<open>
  Every step of every goroutine makes this number smaller, so a request takes a bounded
  number of steps. The handler counts the iterations left, QueryUrls the workers to start
  and the urls to send, a worker the statements left for the task it holds, and every
  task in the channel the three steps of the worker that will take it.
\<close>

fun handler_size :: "handler_pc \<Rightarrow> nat \<Rightarrow> nat" where
  "handler_size HEntry n = 200"
| "handler_size (HLoop i) n = (n - i) + 3"
| "handler_size HWait n = 2"
| "handler_size HSend n = 1"
| "handler_size HReturned n = 0"

fun query_size :: "query_pc \<Rightarrow> nat \<Rightarrow> nat \<Rightarrow> nat" where
  "query_size QIdle c n = 0"
| "query_size (QSpawn i) c n = 2 * (c - i) + 4 * n + 3"
| "query_size (QLoad us) c n = 4 * length us + 2"
| "query_size QWait c n = 1"
| "query_size QDone c n = 0"

fun worker_size :: "worker \<Rightarrow> nat" where
  "worker_size WIdle = 1"
| "worker_size (WFetching task) = 3"
| "worker_size (WSending r) = 2"
| "worker_size WExited = 0"

definition size_of :: "state \<Rightarrow> nat" where
  "size_of s =
     handler_size (handler s) (length (Urls s)) +
     query_size (query s) (workersCount s) (length (Urls s)) +
     sum_list (map worker_size (workers s)) +
     3 * length (tasks s) +
     (if connectionClose s then 0 else 1)"

text \<open>
  The steps of the program itself, apart from the two things that depend on the client:
  its going away, and Handle taking the case \<^verbatim>\<open><-connectionClose\<close>.
\<close>

definition internal :: "event \<Rightarrow> bool" where
  "internal e \<longleftrightarrow> e \<noteq> ClientGone \<and> e \<noteq> HandleSelectClose"

text \<open>
  \<open>undisturbed\<close>: Handle has not taken the case \<^verbatim>\<open><-connectionClose\<close>.
  \<open>suppressed\<close>: it has, and nothing has been written.
\<close>

definition undisturbed :: "state \<Rightarrow> bool" where
  "undisturbed s \<longleftrightarrow> query s = QIdle \<or> needToSend s"

definition suppressed :: "state \<Rightarrow> bool" where
  "suppressed s \<longleftrightarrow>
     quit s \<and> \<not> needToSend s \<and> rw s = None \<and>
     (handler s = HWait \<or> handler s = HSend \<or> handler s = HReturned)"

section \<open>The invariants hold in every reachable state\<close>

lemmas inv_defs = inv_def inv_queue_def inv_logs_def inv_pool_def inv_handler_def inv_request_def
  inv_collect_def idle_def answer_def

lemma inv_init: "inv w (init r)"
  by (simp add: inv_defs init_def MaxUrlCount_def fetching_def sending_def)

lemma queue_frame:
  "\<lbrakk>inv_queue s; Urls s' = Urls s; drawn s' = drawn s; tasks s' = tasks s; query s' = query s;
    tasks_closed s' = tasks_closed s\<rbrakk> \<Longrightarrow> inv_queue s'"
  by (simp add: inv_queue_def)

lemma logs_frame:
  "\<lbrakk>inv_logs w s; drawn s' = drawn s; fetched s' = fetched s; workers s' = workers s;
    sent s' = sent s; pipeline s' = pipeline s\<rbrakk> \<Longrightarrow> inv_logs w s'"
  by (simp add: inv_logs_def)

lemma pool_frame:
  "\<lbrakk>inv_pool s; workersCount s' = workersCount s; Urls s' = Urls s; query s' = query s;
    workers s' = workers s; quit s' = quit s; tasks s' = tasks s;
    tasks_closed s' = tasks_closed s\<rbrakk> \<Longrightarrow> inv_pool s'"
  by (simp add: inv_pool_def)

lemma request_frame:
  "\<lbrakk>inv_request w s; query s' = query s; request s' = request s; Urls s' = Urls s\<rbrakk>
   \<Longrightarrow> inv_request w s'"
  by (simp add: inv_request_def)

lemma collect_frame:
  "\<lbrakk>inv_collect s; quit s' = quit s; needToSend s' = needToSend s; results s' = results s;
    sent s' = sent s; pipeline s' = pipeline s; handler s' = handler s; Urls s' = Urls s;
    connectionClose s' = connectionClose s\<rbrakk> \<Longrightarrow> inv_collect s'"
  by (simp add: inv_collect_def)

lemma idle_frame:
  "\<lbrakk>idle s; Urls s' = Urls s; workersCount s' = workersCount s; tasks s' = tasks s;
    tasks_closed s' = tasks_closed s; pipeline s' = pipeline s; drawn s' = drawn s;
    fetched s' = fetched s; sent s' = sent s; handler s' = handler s; rw s' = rw s\<rbrakk>
   \<Longrightarrow> idle s'"
  by (simp add: idle_def)

lemma invI:
  "\<lbrakk>inv_queue s; inv_logs w s; inv_pool s; inv_handler s; inv_request w s\<rbrakk> \<Longrightarrow> inv w s"
  by (simp add: inv_def)

lemma invD:
  assumes "inv w s"
  shows "inv_queue s" "inv_logs w s" "inv_pool s" "inv_handler s" "inv_request w s"
  using assms by (simp_all add: inv_def)

lemma collect_ClientGone:
  "inv_collect s \<Longrightarrow> inv_collect (s\<lparr>connectionClose := True\<rparr>)"
  unfolding inv_collect_def by (simp (no_asm_simp))

lemma inv_ClientGone:
  assumes "inv w s"
  shows "inv w (s\<lparr>connectionClose := True\<rparr>)"
proof (rule invI)
  note I = invD [OF assms]
  show "inv_queue (s\<lparr>connectionClose := True\<rparr>)"
    by (rule queue_frame [OF I(1)]) simp_all
  show "inv_logs w (s\<lparr>connectionClose := True\<rparr>)"
    by (rule logs_frame [OF I(2)]) simp_all
  show "inv_pool (s\<lparr>connectionClose := True\<rparr>)"
    by (rule pool_frame [OF I(3)]) simp_all
  show "inv_request w (s\<lparr>connectionClose := True\<rparr>)"
    by (rule request_frame [OF I(5)]) simp_all
  have "idle s \<Longrightarrow> idle (s\<lparr>connectionClose := True\<rparr>)"
    by (erule idle_frame) simp_all
  with I(4) collect_ClientGone [of s] show "inv_handler (s\<lparr>connectionClose := True\<rparr>)"
    by (simp add: inv_handler_def answer_def)
qed

lemma inv_entry:
  assumes "inv w s" and "handler s = HEntry"
  shows "query s = QIdle" and "idle s"
  using assms unfolding inv_def inv_handler_def by blast+

lemma inv_reject:
  assumes "inv w s" and "handler s = HEntry"
  shows "inv w (reject msg code s)"
proof (rule invI)
  note I = invD [OF assms(1)] and E = inv_entry [OF assms]
  show "inv_queue (reject msg code s)"
    by (rule queue_frame [OF I(1)]) (simp_all add: reject_def)
  show "inv_logs w (reject msg code s)"
    by (rule logs_frame [OF I(2)]) (simp_all add: reject_def)
  show "inv_pool (reject msg code s)"
    by (rule pool_frame [OF I(3)]) (simp_all add: reject_def)
  show "inv_request w (reject msg code s)"
    by (rule request_frame [OF I(5)]) (simp_all add: reject_def)
  show "inv_handler (reject msg code s)"
    using E by (simp add: inv_handler_def idle_def reject_def)
qed

lemma inv_launch:
  assumes "inv w s" and "handler s = HEntry" and "accepted w (request s) us"
    and "length us \<le> MaxUrlCount"
  shows "inv w (s\<lparr>Urls := us, results := \<lparr>Error = [], Responses = []\<rparr>, pipeline := [],
            quit := False,
            workersCount := (if length us < MaxSimultaneousUrlRequests then length us
                             else MaxSimultaneousUrlRequests),
            query := QSpawn 0, needToSend := True, handler := HLoop 0\<rparr>)"
    (is "inv w ?s'")
proof (rule invI)
  note I = invD [OF assms(1)] and E = inv_entry [OF assms(1,2)]
  from E(2) have z: "Urls s = []" "tasks s = []" "drawn s = []" "fetched s = []" "sent s = []"
    "\<not> tasks_closed s" "pipeline s = []" "rw s = None"
    using assms(2) by (simp_all add: idle_def)
  from I(3) E(1) have ws: "workers s = []"
    by (simp add: inv_pool_def)
  show "inv_queue ?s'"
    using z by (simp add: inv_queue_def)
  show "inv_logs w ?s'"
    using z ws by (simp add: inv_logs_def fetching_def sending_def)
  show "inv_pool ?s'"
    using ws assms(4) by (simp add: inv_pool_def min_def)
  show "inv_request w ?s'"
    using assms(3) by (simp add: inv_request_def)
  show "inv_handler ?s'"
    using z by (simp add: inv_handler_def inv_collect_def)
qed

lemma inv_Handle_entry:
  assumes "inv w s" and "handler s = HEntry"
  shows "inv w (Handle_entry w s)"
  using inv_reject [OF assms] inv_launch [OF assms]
  by (simp add: Handle_entry_def accepted_def not_less split: sum.splits)


lemma inv_launched:
  assumes "inv w s" and "handler s \<noteq> HEntry" and "handler s \<noteq> HReturned"
  shows "query s \<noteq> QIdle"
  using assms unfolding inv_def inv_handler_def idle_def by blast

lemma first_failure_append:
  "first_failure xs = Some e \<Longrightarrow> first_failure (xs @ ys) = Some e"
  by (induction xs) (auto simp: first_failure_def)

lemma first_failure_here:
  "list_all succeeded pre \<Longrightarrow> error r = Some e \<Longrightarrow> first_failure (pre @ r # rest) = Some e"
  by (induction pre) (auto simp: first_failure_def succeeded_def)

lemma inv_Handle_exit_loop:
  assumes "inv w s" and "handler s = HLoop i" and "\<not> i < length (Urls s)"
  shows "inv w (s\<lparr>handler := HWait\<rparr>)"
proof (rule invI)
  note I = invD [OF assms(1)]
  have q: "query s \<noteq> QIdle"
    using inv_launched [OF assms(1)] assms(2) by simp
  show "inv_queue (s\<lparr>handler := HWait\<rparr>)"
    by (rule queue_frame [OF I(1)]) simp_all
  show "inv_logs w (s\<lparr>handler := HWait\<rparr>)"
    by (rule logs_frame [OF I(2)]) simp_all
  show "inv_pool (s\<lparr>handler := HWait\<rparr>)"
    by (rule pool_frame [OF I(3)]) simp_all
  show "inv_request w (s\<lparr>handler := HWait\<rparr>)"
    by (rule request_frame [OF I(5)]) simp_all
  show "inv_handler (s\<lparr>handler := HWait\<rparr>)"
    using I(4) q assms(2,3) by (simp add: inv_handler_def inv_collect_def)
qed

lemma inv_Handle_wait:
  assumes "inv w s" and "handler s = HWait" and "query s = QDone"
  shows "inv w (s\<lparr>handler := HSend\<rparr>)"
proof (rule invI)
  note I = invD [OF assms(1)]
  show "inv_queue (s\<lparr>handler := HSend\<rparr>)"
    by (rule queue_frame [OF I(1)]) simp_all
  show "inv_logs w (s\<lparr>handler := HSend\<rparr>)"
    by (rule logs_frame [OF I(2)]) simp_all
  show "inv_pool (s\<lparr>handler := HSend\<rparr>)"
    by (rule pool_frame [OF I(3)]) simp_all
  show "inv_request w (s\<lparr>handler := HSend\<rparr>)"
    by (rule request_frame [OF I(5)]) simp_all
  show "inv_handler (s\<lparr>handler := HSend\<rparr>)"
    using I(4) assms(2,3) by (simp add: inv_handler_def inv_collect_def)
qed

lemma inv_Handle_send:
  assumes "inv w s" and "handler s = HSend"
  shows "inv w (Handle_send s)"
proof (rule invI)
  note I = invD [OF assms(1)]
  have q: "query s \<noteq> QIdle"
    using inv_launched [OF assms(1)] assms(2) by simp
  show "inv_queue (Handle_send s)"
    by (rule queue_frame [OF I(1)]) (simp_all add: Handle_send_def json_Marshal_def)
  show "inv_logs w (Handle_send s)"
    by (rule logs_frame [OF I(2)]) (simp_all add: Handle_send_def json_Marshal_def)
  show "inv_pool (Handle_send s)"
    by (rule pool_frame [OF I(3)]) (simp_all add: Handle_send_def json_Marshal_def)
  show "inv_request w (Handle_send s)"
    by (rule request_frame [OF I(5)]) (simp_all add: Handle_send_def json_Marshal_def)
  show "inv_handler (Handle_send s)"
    using I(4) q assms(2)
    by (auto simp: inv_handler_def inv_collect_def Handle_send_def json_Marshal_def answer_def)
qed

lemma inv_Handle_step:
  assumes "inv w s" and "Handle_step w s = Some s'"
  shows "inv w s'"
proof (cases "handler s")
  case HEntry
  with assms inv_Handle_entry [of w s] show ?thesis
    by (simp add: Handle_step_def)
next
  case (HLoop i)
  with assms inv_Handle_exit_loop [of w s i] show ?thesis
    by (auto simp: Handle_step_def split: if_splits)
next
  case HWait
  with assms inv_Handle_wait [of w s] show ?thesis
    by (auto simp: Handle_step_def split: if_splits)
next
  case HSend
  with assms inv_Handle_send [of w s] show ?thesis
    by (simp add: Handle_step_def)
next
  case HReturned
  with assms show ?thesis
    by (simp add: Handle_step_def)
qed

lemma inv_Handle_select_close:
  assumes "inv w s" and "Handle_select_close s = Some s'"
  shows "inv w s'"
proof -
  from assms(2) obtain i where h: "handler s = HLoop i" and i: "i < length (Urls s)"
    and c: "connectionClose s"
    and s': "s' = s\<lparr>quit := True, needToSend := False, handler := HWait\<rparr>"
    by (auto simp: Handle_select_close_def split: handler_pc.splits if_splits)
  note I = invD [OF assms(1)]
  have q: "query s \<noteq> QIdle"
    using inv_launched [OF assms(1)] h by simp
  show ?thesis
    unfolding s'
  proof (rule invI)
    show "inv_queue (s\<lparr>quit := True, needToSend := False, handler := HWait\<rparr>)"
      by (rule queue_frame [OF I(1)]) simp_all
    show "inv_logs w (s\<lparr>quit := True, needToSend := False, handler := HWait\<rparr>)"
      by (rule logs_frame [OF I(2)]) simp_all
    show "inv_pool (s\<lparr>quit := True, needToSend := False, handler := HWait\<rparr>)"
      using I(3) by (simp add: inv_pool_def)
    show "inv_request w (s\<lparr>quit := True, needToSend := False, handler := HWait\<rparr>)"
      by (rule request_frame [OF I(5)]) simp_all
    show "inv_handler (s\<lparr>quit := True, needToSend := False, handler := HWait\<rparr>)"
      using I(4) q h i c by (simp add: inv_handler_def inv_collect_def)
  qed
qed


lemma inv_Handle_select_pipeline:
  assumes "inv w s" and "Handle_select_pipeline s = Some s'"
  shows "inv w s'"
proof -
  from assms(2) obtain i res rest where h: "handler s = HLoop i" and i: "i < length (Urls s)"
    and p: "pipeline s = res # rest"
    and s': "s' = (case error res of
        Some err \<Rightarrow> s\<lparr>pipeline := rest, quit := True,
                       results := \<lparr>Error = err, Responses = []\<rparr>, handler := HWait\<rparr>
      | None \<Rightarrow> s\<lparr>pipeline := rest,
                    results := (results s)\<lparr>Responses := Responses (results s) @ [res]\<rparr>,
                    handler := HLoop (Suc i)\<rparr>)"
    by (auto simp: Handle_select_pipeline_def
          split: handler_pc.splits if_splits list.splits option.splits)
  note I = invD [OF assms(1)]
  have q: "query s \<noteq> QIdle"
    using inv_launched [OF assms(1)] h by simp
  from I(4) q h have c: "\<not> quit s" "needToSend s" "Error (results s) = []"
    "sent s = Responses (results s) @ pipeline s" "length (Responses (results s)) = i"
    "list_all succeeded (Responses (results s))" "rw s = None"
    by (simp_all add: inv_handler_def inv_collect_def)
  from I(2) p have suf: "suffix rest (sent s)"
    by (auto simp: inv_logs_def dest: suffix_ConsD)
  show ?thesis
  proof (cases "error res")
    case None
    let ?t = "s\<lparr>pipeline := rest,
                 results := (results s)\<lparr>Responses := Responses (results s) @ [res]\<rparr>,
                 handler := HLoop (Suc i)\<rparr>"
    have "inv w ?t"
    proof (rule invI)
      show "inv_queue ?t"
        by (rule queue_frame [OF I(1)]) simp_all
      show "inv_logs w ?t"
        using I(2) suf by (simp add: inv_logs_def)
      show "inv_pool ?t"
        by (rule pool_frame [OF I(3)]) simp_all
      show "inv_request w ?t"
        by (rule request_frame [OF I(5)]) simp_all
      show "inv_handler ?t"
        using c q p i None by (simp add: inv_handler_def inv_collect_def succeeded_def)
    qed
    with s' None show ?thesis by simp
  next
    case (Some err)
    let ?t = "s\<lparr>pipeline := rest, quit := True,
                 results := \<lparr>Error = err, Responses = []\<rparr>, handler := HWait\<rparr>"
    have "inv w ?t"
    proof (rule invI)
      show "inv_queue ?t"
        by (rule queue_frame [OF I(1)]) simp_all
      show "inv_logs w ?t"
        using I(2) suf by (simp add: inv_logs_def)
      show "inv_pool ?t"
        using I(3) by (simp add: inv_pool_def)
      show "inv_request w ?t"
        by (rule request_frame [OF I(5)]) simp_all
      show "inv_handler ?t"
        using c q p Some first_failure_here [of "Responses (results s)" res err rest]
        by (simp add: inv_handler_def inv_collect_def)
    qed
    with s' Some show ?thesis by simp
  qed
qed

lemma mset_concat_update:
  "i < length ws \<Longrightarrow>
   mset (concat (map f (ws[i := k]))) + mset (f (ws ! i)) = mset (concat (map f ws)) + mset (f k)"
proof (induction ws arbitrary: i)
  case Nil
  then show ?case by simp
next
  case (Cons a ws)
  then show ?case by (cases i) (simp_all add: ac_simps)
qed

lemma fetching_update:
  "i < length ws \<Longrightarrow>
   mset (fetching (ws[i := k])) + mset (task_of (ws ! i)) = mset (fetching ws) + mset (task_of k)"
  unfolding fetching_def by (rule mset_concat_update)

lemma sending_update:
  "i < length ws \<Longrightarrow>
   mset (sending (ws[i := k])) + mset (result_of (ws ! i)) = mset (sending ws) + mset (result_of k)"
  unfolding sending_def by (rule mset_concat_update)

lemma pool_length:
  "length ws' = length ws \<Longrightarrow> q \<noteq> QDone \<Longrightarrow> pool q ws n \<Longrightarrow> pool q ws' n"
  by (cases q) simp_all

lemma pool_done_exited:
  "pool QDone ws n \<Longrightarrow> i < length ws \<Longrightarrow> ws ! i = WExited"
  by (simp add: list_all_length)


lemma handler_frame:
  "\<lbrakk>inv_handler s; query s \<noteq> QIdle; query s' = query s; handler s' = handler s; rw s' = rw s;
    quit s' = quit s; needToSend s' = needToSend s; results s' = results s; sent s' = sent s;
    pipeline s' = pipeline s; Urls s' = Urls s; connectionClose s' = connectionClose s\<rbrakk>
   \<Longrightarrow> inv_handler s'"
  by (simp add: inv_handler_def inv_collect_def answer_def)

lemma handler_query:
  "\<lbrakk>inv_handler s; query s \<noteq> QIdle; query s \<noteq> QDone; q \<noteq> QIdle\<rbrakk>
   \<Longrightarrow> inv_handler (s\<lparr>query := q\<rparr>)"
  by (auto simp: inv_handler_def inv_collect_def answer_def)

lemma inv_Query_step:
  assumes "inv w s" and "Query_step s = Some s'"
  shows "inv w s'"
proof -
  note I = invD [OF assms(1)]
  from I(1) have closed: "tasks_closed s \<longleftrightarrow> query s = QWait \<or> query s = QDone"
    and queue: "drawn s @ tasks s @ unloaded (query s) (Urls s) = Urls s"
    by (simp_all add: inv_queue_def)
  from I(3) have pl: "pool (query s) (workers s) (min MaxSimultaneousUrlRequests (length (Urls s)))"
    and wc: "workersCount s = min MaxSimultaneousUrlRequests (length (Urls s))"
    and len: "length (Urls s) \<le> MaxUrlCount"
    and ex: "\<not> quit s \<and> WExited \<in> set (workers s) \<longrightarrow> tasks s = [] \<and> tasks_closed s"
    by (simp_all add: inv_pool_def)
  show ?thesis
  proof (cases "query s")
    case QIdle
    with assms(2) show ?thesis by (simp add: Query_step_def)
  next
    case QDone
    with assms(2) show ?thesis by (simp add: Query_step_def)
  next
    case (QSpawn i)
    show ?thesis
    proof (cases "i < workersCount s")
      case True
      let ?t = "s\<lparr>workers := workers s @ [WIdle], query := QSpawn (Suc i)\<rparr>"
      have "inv w ?t"
      proof (rule invI)
        show "inv_queue ?t"
          using closed queue QSpawn by (simp add: inv_queue_def)
        show "inv_logs w ?t"
          using I(2) by (simp add: inv_logs_def fetching_def sending_def)
        show "inv_pool ?t"
          using pl wc len ex True QSpawn by (auto simp: inv_pool_def)
        show "inv_request w ?t"
          using I(5) QSpawn by (simp add: inv_request_def)
        have "inv_handler (s\<lparr>query := QSpawn (Suc i)\<rparr>)"
          using I(4) QSpawn by (intro handler_query) simp_all
        then show "inv_handler ?t"
          by (rule handler_frame) simp_all
      qed
      with assms(2) QSpawn True show ?thesis by (simp add: Query_step_def)
    next
      case False
      let ?t = "s\<lparr>query := QLoad (Urls s)\<rparr>"
      have "inv w ?t"
      proof (rule invI)
        show "inv_queue ?t"
          using closed queue QSpawn by (simp add: inv_queue_def)
        show "inv_logs w ?t"
          by (rule logs_frame [OF I(2)]) simp_all
        show "inv_pool ?t"
          using pl wc len ex False QSpawn by (auto simp: inv_pool_def)
        show "inv_request w ?t"
          using I(5) QSpawn by (simp add: inv_request_def)
        show "inv_handler ?t"
          using I(4) QSpawn by (intro handler_query) simp_all
      qed
      with assms(2) QSpawn False show ?thesis by (simp add: Query_step_def)
    qed
  next
    case (QLoad us)
    show ?thesis
    proof (cases us)
      case Nil
      let ?t = "s\<lparr>tasks_closed := True, query := QWait\<rparr>"
      have "inv w ?t"
      proof (rule invI)
        show "inv_queue ?t"
          using closed queue QLoad Nil by (simp add: inv_queue_def)
        show "inv_logs w ?t"
          by (rule logs_frame [OF I(2)]) simp_all
        show "inv_pool ?t"
          using pl wc len ex closed QLoad by (auto simp: inv_pool_def)
        show "inv_request w ?t"
          using I(5) QLoad by (simp add: inv_request_def)
        have "inv_handler (s\<lparr>query := QWait\<rparr>)"
          using I(4) QLoad by (intro handler_query) simp_all
        then show "inv_handler ?t"
          by (rule handler_frame) simp_all
      qed
      with assms(2) QLoad Nil show ?thesis by (simp add: Query_step_def)
    next
      case (Cons url rest)
      let ?t = "s\<lparr>tasks := tasks s @ [url], query := QLoad rest\<rparr>"
      have "inv w ?t"
      proof (rule invI)
        show "inv_queue ?t"
          using closed queue QLoad Cons by (simp add: inv_queue_def)
        show "inv_logs w ?t"
          by (rule logs_frame [OF I(2)]) simp_all
        show "inv_pool ?t"
          using pl wc len ex closed QLoad by (auto simp: inv_pool_def)
        show "inv_request w ?t"
          using I(5) QLoad by (simp add: inv_request_def)
        have "inv_handler (s\<lparr>query := QLoad rest\<rparr>)"
          using I(4) QLoad by (intro handler_query) simp_all
        then show "inv_handler ?t"
          by (rule handler_frame) simp_all
      qed
      with assms(2) QLoad Cons show ?thesis
        by (simp add: Query_step_def split: if_splits)
    qed
  next
    case QWait
    let ?t = "s\<lparr>query := QDone\<rparr>"
    from assms(2) QWait have all: "list_all (\<lambda>k. k = WExited) (workers s)" and s': "s' = ?t"
      by (simp_all add: Query_step_def split: if_splits)
    have "inv w ?t"
    proof (rule invI)
      show "inv_queue ?t"
        using closed queue QWait by (simp add: inv_queue_def)
      show "inv_logs w ?t"
        by (rule logs_frame [OF I(2)]) simp_all
      show "inv_pool ?t"
        using pl wc len ex closed QWait all by (auto simp: inv_pool_def)
      show "inv_request w ?t"
        using I(5) QWait by (simp add: inv_request_def)
      show "inv_handler ?t"
        using I(4) QWait by (intro handler_query) simp_all
    qed
    with s' show ?thesis by simp
  qed
qed


lemma worker_not_idle_query:
  assumes "inv_pool s" and "i < length (workers s)" and "workers s ! i \<noteq> WExited"
  shows "query s \<noteq> QIdle" and "query s \<noteq> QDone"
  using assms by (auto simp: inv_pool_def list_all_length)

lemma pool_update:
  assumes "inv_pool s" and "i < length (workers s)" and "workers s ! i \<noteq> WExited"
    and "k = WExited \<longrightarrow> quit s \<or> tasks s = [] \<and> tasks_closed s"
  shows "inv_pool (s\<lparr>workers := (workers s)[i := k]\<rparr>)"
proof -
  from assms(1)
  have pl: "pool (query s) (workers s) (min MaxSimultaneousUrlRequests (length (Urls s)))"
    and wc: "workersCount s = min MaxSimultaneousUrlRequests (length (Urls s))"
    and len: "length (Urls s) \<le> MaxUrlCount"
    and ex: "\<not> quit s \<and> WExited \<in> set (workers s) \<longrightarrow> tasks s = [] \<and> tasks_closed s"
    by (simp_all add: inv_pool_def)
  have "query s \<noteq> QDone"
    using worker_not_idle_query [OF assms(1-3)] by simp
  then have p: "pool (query s) ((workers s)[i := k]) (min MaxSimultaneousUrlRequests (length (Urls s)))"
    using pl by (simp add: pool_length [of _ "workers s"])
  have e: "tasks s = [] \<and> tasks_closed s"
    if "\<not> quit s" and "WExited \<in> set ((workers s)[i := k])"
  proof -
    from that(2) have "k = WExited \<or> WExited \<in> set (workers s)"
      using set_update_subset_insert [of "workers s" i k] by blast
    with that(1) ex assms(4) show ?thesis by blast
  qed
  show ?thesis
    using p wc len e by (simp add: inv_pool_def)
qed

lemma inv_Worker_select_task:
  assumes "inv w s" and "Worker_select_task i s = Some s'"
  shows "inv w s'"
proof -
  note I = invD [OF assms(1)]
  from assms(2) have i: "i < length (workers s)" and idle: "workers s ! i = WIdle"
    by (simp_all add: Worker_select_task_def split: if_splits)
  note Q = worker_not_idle_query [OF I(3) i]
  show ?thesis
  proof (cases "tasks s")
    case Nil
    let ?t = "s\<lparr>workers := (workers s)[i := WExited]\<rparr>"
    from assms(2) i idle Nil have closed: "tasks_closed s" and s': "s' = ?t"
      by (simp_all add: Worker_select_task_def split: if_splits)
    have "inv w ?t"
    proof (rule invI)
      show "inv_queue ?t"
        by (rule queue_frame [OF I(1)]) simp_all
      show "inv_logs w ?t"
        using I(2) fetching_update [OF i, of WExited] sending_update [OF i, of WExited] idle
        by (simp add: inv_logs_def)
      show "inv_pool ?t"
        using Nil closed idle by (intro pool_update [OF I(3) i]) simp_all
      show "inv_request w ?t"
        by (rule request_frame [OF I(5)]) simp_all
      show "inv_handler ?t"
        using Q idle by (intro handler_frame [OF I(4)]) simp_all
    qed
    with s' show ?thesis by simp
  next
    case (Cons task rest)
    let ?t = "s\<lparr>tasks := rest, drawn := drawn s @ [task],
                 workers := (workers s)[i := WFetching task]\<rparr>"
    from assms(2) i idle Cons have s': "s' = ?t"
      by (simp add: Worker_select_task_def)
    have *: "inv_pool (s\<lparr>workers := (workers s)[i := WFetching task]\<rparr>)"
      using idle by (intro pool_update [OF I(3) i]) simp_all
    have "inv w ?t"
    proof (rule invI)
      show "inv_queue ?t"
        using I(1) Cons by (simp add: inv_queue_def)
      show "inv_logs w ?t"
        using I(2) fetching_update [OF i, of "WFetching task"]
          sending_update [OF i, of "WFetching task"] idle
        by (simp add: inv_logs_def)
      show "inv_pool ?t"
        using * I(3) Cons by (auto simp: inv_pool_def)
      show "inv_request w ?t"
        by (rule request_frame [OF I(5)]) simp_all
      show "inv_handler ?t"
        using Q idle by (intro handler_frame [OF I(4)]) simp_all
    qed
    with s' show ?thesis by simp
  qed
qed

lemma inv_Worker_select_quit:
  assumes "inv w s" and "Worker_select_quit i s = Some s'"
  shows "inv w s'"
proof -
  note I = invD [OF assms(1)]
  let ?t = "s\<lparr>workers := (workers s)[i := WExited]\<rparr>"
  from assms(2) have i: "i < length (workers s)" and idle: "workers s ! i = WIdle"
    and quit: "quit s" and s': "s' = ?t"
    by (simp_all add: Worker_select_quit_def split: if_splits)
  note Q = worker_not_idle_query [OF I(3) i]
  have "inv w ?t"
  proof (rule invI)
    show "inv_queue ?t"
      by (rule queue_frame [OF I(1)]) simp_all
    show "inv_logs w ?t"
      using I(2) fetching_update [OF i, of WExited] sending_update [OF i, of WExited] idle
      by (simp add: inv_logs_def)
    show "inv_pool ?t"
      using quit idle by (intro pool_update [OF I(3) i]) simp_all
    show "inv_request w ?t"
      by (rule request_frame [OF I(5)]) simp_all
    show "inv_handler ?t"
      using Q idle by (intro handler_frame [OF I(4)]) simp_all
  qed
  with s' show ?thesis by simp
qed


lemma collect_send:
  assumes "inv_collect s"
  shows "inv_collect (s\<lparr>pipeline := pipeline s @ [r], sent := sent s @ [r]\<rparr>)"
  using assms first_failure_append [of "sent s" _ "[r]"]
  by (simp add: inv_collect_def)

lemma inv_Worker_step:
  assumes "inv w s" and "Worker_step w i s = Some s'"
  shows "inv w s'"
proof -
  note I = invD [OF assms(1)]
  from assms(2) have i: "i < length (workers s)"
    by (simp add: Worker_step_def split: if_splits)
  from assms(2) i have ne: "workers s ! i \<noteq> WExited"
    by (auto simp: Worker_step_def)
  note Q = worker_not_idle_query [OF I(3) i ne]
  show ?thesis
  proof (cases "workers s ! i")
    case WIdle
    with assms(2) i show ?thesis by (simp add: Worker_step_def)
  next
    case WExited
    with assms(2) i show ?thesis by (simp add: Worker_step_def)
  next
    case (WFetching task)
    define r where "r = \<lparr>Url = task,
      Response = fst (RequestUrl (Get w (length (fetched s))) task),
      error = snd (RequestUrl (Get w (length (fetched s))) task)\<rparr>"
    let ?t = "s\<lparr>fetched := fetched s @ [r], workers := (workers s)[i := WSending r]\<rparr>"
    from assms(2) i WFetching have s': "s' = ?t"
      by (simp add: Worker_step_def r_def Let_def split: prod.splits)
    have "inv w ?t"
    proof (rule invI)
      show "inv_queue ?t"
        by (rule queue_frame [OF I(1)]) simp_all
      show "inv_logs w ?t"
        using I(2) fetching_update [OF i, of "WSending r"] sending_update [OF i, of "WSending r"]
          WFetching
        by (simp add: inv_logs_def nth_append r_def less_Suc_eq)
      have "inv_pool (s\<lparr>workers := (workers s)[i := WSending r]\<rparr>)"
        using ne by (intro pool_update [OF I(3) i]) simp_all
      then show "inv_pool ?t"
        by (rule pool_frame) simp_all
      show "inv_request w ?t"
        by (rule request_frame [OF I(5)]) simp_all
      show "inv_handler ?t"
        using Q by (intro handler_frame [OF I(4)]) simp_all
    qed
    with s' show ?thesis by simp
  next
    case (WSending r)
    let ?t = "s\<lparr>pipeline := pipeline s @ [r], sent := sent s @ [r],
                 workers := (workers s)[i := WIdle]\<rparr>"
    from assms(2) i WSending have s': "s' = ?t"
      by (simp add: Worker_step_def split: if_splits)
    have "inv w ?t"
    proof (rule invI)
      show "inv_queue ?t"
        by (rule queue_frame [OF I(1)]) simp_all
      show "inv_logs w ?t"
        using I(2) fetching_update [OF i, of WIdle] sending_update [OF i, of WIdle] WSending
        by (simp add: inv_logs_def)
      have "inv_pool (s\<lparr>workers := (workers s)[i := WIdle]\<rparr>)"
        using ne by (intro pool_update [OF I(3) i]) simp_all
      then show "inv_pool ?t"
        by (rule pool_frame) simp_all
      show "inv_request w ?t"
        by (rule request_frame [OF I(5)]) simp_all
      from I(4) Q have c: "inv_collect s"
        by (simp add: inv_handler_def)
      show "inv_handler ?t"
        using I(4) Q(1) collect_frame [OF collect_send [OF c, of r], of ?t]
        by (simp add: inv_handler_def answer_def)
    qed
    with s' show ?thesis by simp
  qed
qed

lemma inv_step:
  assumes "inv w s" and "step w e s = Some s'"
  shows "inv w s'"
proof (cases e)
  case ClientGone
  with assms inv_ClientGone [of w s] show ?thesis
    by (auto simp: step_def split: if_splits)
next
  case HandleStep
  with assms show ?thesis by (simp add: step_def inv_Handle_step)
next
  case HandleSelectClose
  with assms show ?thesis by (simp add: step_def inv_Handle_select_close)
next
  case HandleSelectPipeline
  with assms show ?thesis by (simp add: step_def inv_Handle_select_pipeline)
next
  case QueryStep
  with assms show ?thesis by (simp add: step_def inv_Query_step)
next
  case (WorkerSelectTask i)
  with assms show ?thesis by (simp add: step_def inv_Worker_select_task)
next
  case (WorkerSelectQuit i)
  with assms show ?thesis by (simp add: step_def inv_Worker_select_quit)
next
  case (WorkerStep i)
  with assms show ?thesis by (simp add: step_def inv_Worker_step)
qed

lemma inv_exec:
  "inv w s \<Longrightarrow> exec w es s = Some s' \<Longrightarrow> inv w s'"
proof (induction es arbitrary: s)
  case Nil
  then show ?case by simp
next
  case (Cons e es)
  then show ?case
    by (auto split: option.splits dest: inv_step)
qed

lemma inv_reachable:
  "exec w es (init r) = Some s \<Longrightarrow> inv w s"
  using inv_exec [OF inv_init] .

section \<open>What the invariants say when Handle has returned\<close>

lemma drawn_le: "inv_queue s \<Longrightarrow> length (drawn s) \<le> length (Urls s)"
proof -
  assume "inv_queue s"
  then have "length (drawn s @ tasks s @ unloaded (query s) (Urls s)) = length (Urls s)"
    by (simp add: inv_queue_def)
  then show ?thesis by simp
qed

lemma fetched_le: "inv_logs w s \<Longrightarrow> length (fetched s) \<le> length (drawn s)"
proof -
  assume "inv_logs w s"
  then have "size (mset (drawn s)) = size (mset (map Url (fetched s)) + mset (fetching (workers s)))"
    by (simp add: inv_logs_def)
  then show ?thesis by simp
qed

lemma sent_le: "inv_logs w s \<Longrightarrow> length (sent s) \<le> length (fetched s)"
proof -
  assume "inv_logs w s"
  then have "size (mset (fetched s)) = size (mset (sent s) + mset (sending (workers s)))"
    by (simp add: inv_logs_def)
  then show ?thesis by simp
qed

lemma sent_le_Urls: "inv w s \<Longrightarrow> length (sent s) \<le> length (Urls s)"
  using drawn_le [of s] fetched_le [of w s] sent_le [of w s] by (simp add: inv_def)

lemma exited_none:
  "list_all (\<lambda>k. k = WExited) ws \<Longrightarrow> fetching ws = [] \<and> sending ws = []"
  by (induction ws) (simp_all add: fetching_def sending_def)

lemma done_logs:
  assumes "inv w s" and "query s = QDone"
  shows "mset (map Url (fetched s)) = mset (drawn s)" and "mset (sent s) = mset (fetched s)"
    and "list_all (\<lambda>k. k = WExited) (workers s)"
    and "length (workers s) = min MaxSimultaneousUrlRequests (length (Urls s))"
proof -
  from assms show ex: "list_all (\<lambda>k. k = WExited) (workers s)"
    and "length (workers s) = min MaxSimultaneousUrlRequests (length (Urls s))"
    by (simp_all add: inv_def inv_pool_def)
  from assms(1) exited_none [OF ex] show "mset (map Url (fetched s)) = mset (drawn s)"
    and "mset (sent s) = mset (fetched s)"
    by (simp_all add: inv_def inv_logs_def)
qed

lemma joined:
  assumes "inv w s" and "handler s = HSend \<or> handler s = HReturned" and "query s \<noteq> QIdle"
  shows "query s = QDone"
  using assms by (auto simp: inv_def inv_handler_def)

lemma complete_result:
  assumes "inv w s" and "handler s = HReturned" and "query s \<noteq> QIdle" and "\<not> quit s"
  shows "Error (results s) = []" and "Responses (results s) = sent s"
    and "length (sent s) = length (Urls s)" and "drawn s = Urls s" and "needToSend s"
proof -
  from assms have c: "needToSend s" "Error (results s) = []"
    "sent s = Responses (results s) @ pipeline s"
    "length (Responses (results s)) = length (Urls s)"
    by (simp_all add: inv_def inv_handler_def inv_collect_def)
  from c(3,4) sent_le_Urls [OF assms(1)] have p: "pipeline s = []"
    by simp
  with c show "Error (results s) = []" "Responses (results s) = sent s"
    "length (sent s) = length (Urls s)" "needToSend s"
    by simp_all
  from assms(1) have I: "inv_queue s" "inv_logs w s" by (simp_all add: inv_def)
  from \<open>length (sent s) = length (Urls s)\<close> sent_le [OF I(2)] fetched_le [OF I(2)] drawn_le [OF I(1)]
  have "length (drawn s) = length (Urls s)" by simp
  moreover from I(1) have "drawn s @ tasks s @ unloaded (query s) (Urls s) = Urls s"
    by (simp add: inv_queue_def)
  ultimately show "drawn s = Urls s"
    by (metis append_eq_conv_conj take_all_iff le_refl)
qed

lemma failed_result:
  assumes "inv w s" and "handler s = HReturned" and "query s \<noteq> QIdle" and "quit s"
    and "needToSend s"
  shows "first_failure (sent s) = Some (Error (results s))" and "Responses (results s) = []"
  using assms by (simp_all add: inv_def inv_handler_def inv_collect_def)

lemma returned_rw:
  assumes "inv w s" and "handler s = HReturned" and "query s \<noteq> QIdle"
  shows "rw s = answer s"
  using assms by (simp add: inv_def inv_handler_def)

lemma first_failure_None:
  "first_failure xs = None \<longleftrightarrow> list_all succeeded xs"
  by (induction xs) (auto simp: first_failure_def succeeded_def)

lemma first_failure_Some:
  "first_failure xs = Some e \<Longrightarrow> \<exists>x \<in> set xs. error x = Some e"
  by (induction xs) (auto simp: first_failure_def succeeded_def split: if_splits)

section \<open>Every request comes to an end\<close>

lemma worker_size_update:
  "i < length ws \<Longrightarrow>
   sum_list (map worker_size (ws[i := k])) + worker_size (ws ! i) =
   sum_list (map worker_size ws) + worker_size k"
proof (induction ws arbitrary: i)
  case Nil
  then show ?case by simp
next
  case (Cons a ws)
  then show ?case by (cases i) simp_all
qed

lemma Handle_entry_size:
  "handler s = HEntry \<Longrightarrow> query s = QIdle \<Longrightarrow> size_of (Handle_entry w s) < size_of s"
  by (simp add: size_of_def Handle_entry_def reject_def MaxUrlCount_def
        MaxSimultaneousUrlRequests_def split: sum.splits)

lemma Handle_step_size:
  assumes "inv w s" and "Handle_step w s = Some s'"
  shows "size_of s' < size_of s"
proof (cases "handler s")
  case HEntry
  with assms inv_entry(1) [of w s] Handle_entry_size [of s w] show ?thesis
    by (simp add: Handle_step_def)
next
  case (HLoop i)
  with assms(2) show ?thesis
    by (auto simp: Handle_step_def size_of_def split: if_splits)
next
  case HWait
  with assms(2) show ?thesis
    by (auto simp: Handle_step_def size_of_def split: if_splits)
next
  case HSend
  with assms(2) show ?thesis
    by (cases "needToSend s")
      (auto simp: Handle_step_def Handle_send_def json_Marshal_def size_of_def)
next
  case HReturned
  with assms(2) show ?thesis
    by (simp add: Handle_step_def)
qed

lemma Handle_select_close_size:
  "Handle_select_close s = Some s' \<Longrightarrow> size_of s' < size_of s"
  by (auto simp: Handle_select_close_def size_of_def split: handler_pc.splits if_splits)

lemma Handle_select_pipeline_size:
  "Handle_select_pipeline s = Some s' \<Longrightarrow> size_of s' < size_of s"
  by (auto simp: Handle_select_pipeline_def size_of_def
        split: handler_pc.splits if_splits list.splits option.splits)

lemma Query_step_size:
  "Query_step s = Some s' \<Longrightarrow> size_of s' < size_of s"
  by (auto simp: Query_step_def size_of_def split: query_pc.splits if_splits list.splits)

lemma Worker_select_task_size:
  assumes "Worker_select_task i s = Some s'"
  shows "size_of s' < size_of s"
proof -
  from assms have i: "i < length (workers s)" and idle: "workers s ! i = WIdle"
    by (simp_all add: Worker_select_task_def split: if_splits)
  show ?thesis
  proof (cases "tasks s")
    case Nil
    with assms i idle worker_size_update [OF i, of WExited] show ?thesis
      by (auto simp: Worker_select_task_def size_of_def split: if_splits)
  next
    case (Cons task rest)
    with assms i idle worker_size_update [OF i, of "WFetching task"] show ?thesis
      by (auto simp: Worker_select_task_def size_of_def)
  qed
qed

lemma Worker_select_quit_size:
  assumes "Worker_select_quit i s = Some s'"
  shows "size_of s' < size_of s"
proof -
  from assms have i: "i < length (workers s)" and idle: "workers s ! i = WIdle"
    by (simp_all add: Worker_select_quit_def split: if_splits)
  with assms worker_size_update [OF i, of WExited] show ?thesis
    by (auto simp: Worker_select_quit_def size_of_def split: if_splits)
qed

lemma Worker_step_size:
  assumes "Worker_step w i s = Some s'"
  shows "size_of s' < size_of s"
proof -
  from assms have i: "i < length (workers s)"
    by (simp add: Worker_step_def split: if_splits)
  show ?thesis
  proof (cases "workers s ! i")
    case WIdle
    with assms i show ?thesis by (simp add: Worker_step_def)
  next
    case WExited
    with assms i show ?thesis by (simp add: Worker_step_def)
  next
    case (WFetching task)
    obtain x1 x2 where "RequestUrl (Get w (length (fetched s))) task = (x1, x2)"
      by force
    with assms i WFetching
      worker_size_update [OF i, of "WSending \<lparr>Url = task, Response = x1, error = x2\<rparr>"]
    show ?thesis
      by (auto simp: Worker_step_def size_of_def Let_def)
  next
    case (WSending r)
    with assms i worker_size_update [OF i, of WIdle] show ?thesis
      by (auto simp: Worker_step_def size_of_def split: if_splits)
  qed
qed

lemma step_size:
  assumes "inv w s" and "step w e s = Some s'"
  shows "size_of s' < size_of s"
proof (cases e)
  case ClientGone
  with assms(2) show ?thesis
    by (auto simp: step_def size_of_def split: if_splits)
next
  case HandleStep
  with assms show ?thesis by (simp add: step_def Handle_step_size)
next
  case HandleSelectClose
  with assms show ?thesis by (simp add: step_def Handle_select_close_size)
next
  case HandleSelectPipeline
  with assms show ?thesis by (simp add: step_def Handle_select_pipeline_size)
next
  case QueryStep
  with assms show ?thesis by (simp add: step_def Query_step_size)
next
  case (WorkerSelectTask i)
  with assms show ?thesis by (simp add: step_def Worker_select_task_size)
next
  case (WorkerSelectQuit i)
  with assms show ?thesis by (simp add: step_def Worker_select_quit_size)
next
  case (WorkerStep i)
  with assms show ?thesis by (simp add: step_def Worker_step_size)
qed

lemma send_room:
  assumes "inv w s" and "i < length (workers s)" and "workers s ! i = WSending r"
  shows "length (pipeline s) < length (Urls s)"
proof -
  from assms(1) have I: "inv_queue s" "inv_logs w s" by (simp_all add: inv_def)
  from sending_update [OF assms(2), of WIdle] assms(3)
  have "mset (sending (workers s)) = add_mset r (mset (sending ((workers s)[i := WIdle])))"
    by simp
  then have "size (mset (sending (workers s))) > 0"
    by simp
  moreover from I(2)
  have "size (mset (fetched s)) = size (mset (sent s) + mset (sending (workers s)))"
    by (simp add: inv_logs_def)
  ultimately have "length (sent s) < length (fetched s)"
    by simp
  moreover from I(2) have "length (pipeline s) \<le> length (sent s)"
    by (simp add: inv_logs_def suffix_length_le)
  ultimately show ?thesis
    using fetched_le [OF I(2)] drawn_le [OF I(1)] by simp
qed

lemma worker_progress:
  assumes "inv w s" and "tasks_closed s" and "i < length (workers s)"
    and "workers s ! i \<noteq> WExited"
  shows "\<exists>e. internal e \<and> step w e s \<noteq> None"
proof (cases "workers s ! i")
  case WIdle
  with assms(2,3) have "step w (WorkerSelectTask i) s \<noteq> None"
    by (simp add: step_def Worker_select_task_def split: list.splits)
  then show ?thesis by (auto simp: internal_def)
next
  case (WFetching task)
  with assms(3) have "step w (WorkerStep i) s \<noteq> None"
    by (simp add: step_def Worker_step_def Let_def split: prod.splits)
  then show ?thesis by (auto simp: internal_def)
next
  case (WSending r)
  with assms(3) send_room [OF assms(1,3)] have "step w (WorkerStep i) s \<noteq> None"
    by (simp add: step_def Worker_step_def)
  then show ?thesis by (auto simp: internal_def)
next
  case WExited
  with assms(4) show ?thesis by simp
qed

lemma query_progress:
  assumes "inv w s" and "query s \<noteq> QIdle" and "query s \<noteq> QDone"
  shows "\<exists>e. internal e \<and> step w e s \<noteq> None"
proof -
  from assms(1) have I: "inv_queue s" by (simp add: inv_def)
  show ?thesis
  proof (cases "query s")
    case QIdle
    with assms(2) show ?thesis by simp
  next
    case QDone
    with assms(3) show ?thesis by simp
  next
    case (QSpawn i)
    then have "step w QueryStep s \<noteq> None"
      by (simp add: step_def Query_step_def)
    then show ?thesis by (auto simp: internal_def)
  next
    case (QLoad us)
    from I QLoad have "length (drawn s @ tasks s @ us) = length (Urls s)"
      by (simp add: inv_queue_def)
    with QLoad have "step w QueryStep s \<noteq> None"
      by (cases us) (simp_all add: step_def Query_step_def)
    then show ?thesis by (auto simp: internal_def)
  next
    case QWait
    show ?thesis
    proof (cases "list_all (\<lambda>k. k = WExited) (workers s)")
      case True
      with QWait have "step w QueryStep s \<noteq> None"
        by (simp add: step_def Query_step_def)
      then show ?thesis by (auto simp: internal_def)
    next
      case False
      then obtain i where "i < length (workers s)" and "workers s ! i \<noteq> WExited"
        by (auto simp: list_all_length)
      moreover from I QWait have "tasks_closed s"
        by (simp add: inv_queue_def)
      ultimately show ?thesis
        using worker_progress [OF assms(1)] by blast
    qed
  qed
qed

lemma loop_not_done:
  assumes "inv w s" and "handler s = HLoop i" and "i < length (Urls s)" and "pipeline s = []"
  shows "query s \<noteq> QDone"
proof
  assume d: "query s = QDone"
  from assms(1) have I: "inv_queue s" "inv_pool s" "inv_handler s"
    by (simp_all add: inv_def)
  from I(3) d assms(2,4) have c: "\<not> quit s" "sent s = Responses (results s)"
    "length (Responses (results s)) = i"
    by (simp_all add: inv_handler_def inv_collect_def)
  note L = done_logs [OF assms(1) d]
  from L(4) assms(3) have "workers s \<noteq> []"
    by (auto simp: MaxSimultaneousUrlRequests_def)
  with L(3) have "WExited \<in> set (workers s)"
    by (cases "workers s") simp_all
  with I(2) c(1) have "tasks s = []"
    by (simp add: inv_pool_def)
  with I(1) d have "drawn s = Urls s"
    by (simp add: inv_queue_def)
  with mset_eq_length [OF L(1)] mset_eq_length [OF L(2)]
  have "length (sent s) = length (Urls s)"
    by simp
  with c(2,3) assms(3) show False by simp
qed

lemma progress:
  assumes "inv w s" and "handler s \<noteq> HReturned"
  shows "\<exists>e. internal e \<and> step w e s \<noteq> None"
proof -
  have hs: "step w HandleStep s \<noteq> None \<Longrightarrow> ?thesis"
    by (auto simp: internal_def)
  have hp: "step w HandleSelectPipeline s \<noteq> None \<Longrightarrow> ?thesis"
    by (auto simp: internal_def)
  show ?thesis
  proof (cases "handler s")
    case HEntry
    then show ?thesis by (intro hs) (simp add: step_def Handle_step_def)
  next
    case HSend
    then show ?thesis by (intro hs) (simp add: step_def Handle_step_def)
  next
    case HReturned
    with assms(2) show ?thesis by simp
  next
    case HWait
    show ?thesis
    proof (cases "query s = QDone")
      case True
      with HWait show ?thesis by (intro hs) (simp add: step_def Handle_step_def)
    next
      case False
      moreover have "query s \<noteq> QIdle"
        using inv_launched [OF assms(1)] HWait by simp
      ultimately show ?thesis by (rule query_progress [OF assms(1), rotated])
    qed
  next
    case (HLoop i)
    have q: "query s \<noteq> QIdle"
      using inv_launched [OF assms(1)] HLoop by simp
    show ?thesis
    proof (cases "i < length (Urls s)")
      case False
      with HLoop show ?thesis by (intro hs) (simp add: step_def Handle_step_def)
    next
      case True
      show ?thesis
      proof (cases "pipeline s")
        case Nil
        from loop_not_done [OF assms(1) HLoop True Nil] q show ?thesis
          by (rule query_progress [OF assms(1), rotated])
      next
        case (Cons res rest)
        with HLoop True show ?thesis
          by (intro hp) (simp add: step_def Handle_select_pipeline_def split: option.splits)
      qed
    qed
  qed
qed

lemma can_finish:
  "inv w s \<Longrightarrow> \<exists>es s'. list_all internal es \<and> exec w es s = Some s' \<and> handler s' = HReturned"
proof (induction "size_of s" arbitrary: s rule: less_induct)
  case less
  show ?case
  proof (cases "handler s = HReturned")
    case True
    then have "list_all internal [] \<and> exec w [] s = Some s \<and> handler s = HReturned"
      by simp
    then show ?thesis by blast
  next
    case False
    from progress [OF less.prems False] obtain e s1 where e: "internal e"
      and s1: "step w e s = Some s1"
      by auto
    from less.hyps [OF step_size [OF less.prems s1] inv_step [OF less.prems s1]]
    obtain es s' where "list_all internal es" "exec w es s1 = Some s'" "handler s' = HReturned"
      by blast
    with e s1 have "list_all internal (e # es) \<and> exec w (e # es) s = Some s' \<and> handler s' = HReturned"
      by simp
    then show ?thesis by blast
  qed
qed

lemma exec_bounded:
  "inv w s \<Longrightarrow> exec w es s = Some s' \<Longrightarrow> length es + size_of s' \<le> size_of s"
proof (induction es arbitrary: s)
  case Nil
  then show ?case by simp
next
  case (Cons e es)
  from Cons.prems(2) obtain s1 where s1: "step w e s = Some s1" and r: "exec w es s1 = Some s'"
    by (auto split: option.splits)
  from Cons.IH [OF inv_step [OF Cons.prems(1) s1] r] step_size [OF Cons.prems(1) s1]
  show ?case by simp
qed

lemma exec_append:
  "exec w (es @ fs) s = (case exec w es s of None \<Rightarrow> None | Some s' \<Rightarrow> exec w fs s')"
  by (induction es arbitrary: s) (simp_all split: option.splits)

lemma undisturbed_step:
  assumes "undisturbed s" and "step w e s = Some s'" and "e \<noteq> HandleSelectClose"
  shows "undisturbed s'"
proof (cases e)
  case ClientGone
  with assms show ?thesis
    by (auto simp: step_def undisturbed_def split: if_splits)
next
  case HandleStep
  with assms show ?thesis
    by (cases "needToSend s")
      (auto simp: step_def undisturbed_def Handle_step_def Handle_entry_def reject_def
        Handle_send_def json_Marshal_def split: handler_pc.splits if_splits sum.splits)
next
  case HandleSelectClose
  with assms show ?thesis by simp
next
  case HandleSelectPipeline
  with assms show ?thesis
    by (auto simp: step_def undisturbed_def Handle_select_pipeline_def
        split: handler_pc.splits if_splits list.splits option.splits)
next
  case QueryStep
  with assms show ?thesis
    by (auto simp: step_def undisturbed_def Query_step_def
        split: query_pc.splits if_splits list.splits)
next
  case (WorkerSelectTask i)
  with assms show ?thesis
    by (auto simp: step_def undisturbed_def Worker_select_task_def split: if_splits list.splits)
next
  case (WorkerSelectQuit i)
  with assms show ?thesis
    by (auto simp: step_def undisturbed_def Worker_select_quit_def split: if_splits)
next
  case (WorkerStep i)
  with assms show ?thesis
    by (auto simp: step_def undisturbed_def Worker_step_def Let_def
        split: if_splits worker.splits prod.splits)
qed

lemma undisturbed_exec:
  "undisturbed s \<Longrightarrow> exec w es s = Some s' \<Longrightarrow> HandleSelectClose \<notin> set es \<Longrightarrow> undisturbed s'"
proof (induction es arbitrary: s)
  case Nil
  then show ?case by simp
next
  case (Cons e es)
  from Cons.prems(2) obtain s1 where s1: "step w e s = Some s1" and r: "exec w es s1 = Some s'"
    by (auto split: option.splits)
  from undisturbed_step [OF Cons.prems(1) s1] Cons.prems(3) have "undisturbed s1"
    by auto
  with Cons.IH r Cons.prems(3) show ?case by simp
qed

lemma suppressed_step:
  assumes "suppressed s" and "step w e s = Some s'"
  shows "suppressed s'"
proof (cases e)
  case ClientGone
  with assms show ?thesis
    by (auto simp: step_def suppressed_def split: if_splits)
next
  case HandleStep
  with assms show ?thesis
    by (auto simp: step_def suppressed_def Handle_step_def Handle_send_def split: if_splits)
next
  case HandleSelectClose
  with assms show ?thesis
    by (auto simp: step_def suppressed_def Handle_select_close_def)
next
  case HandleSelectPipeline
  with assms show ?thesis
    by (auto simp: step_def suppressed_def Handle_select_pipeline_def)
next
  case QueryStep
  with assms show ?thesis
    by (auto simp: step_def suppressed_def Query_step_def
        split: query_pc.splits if_splits list.splits)
next
  case (WorkerSelectTask i)
  with assms show ?thesis
    by (auto simp: step_def suppressed_def Worker_select_task_def split: if_splits list.splits)
next
  case (WorkerSelectQuit i)
  with assms show ?thesis
    by (auto simp: step_def suppressed_def Worker_select_quit_def split: if_splits)
next
  case (WorkerStep i)
  with assms show ?thesis
    by (auto simp: step_def suppressed_def Worker_step_def Let_def
        split: if_splits worker.splits prod.splits)
qed

lemma suppressed_exec:
  "suppressed s \<Longrightarrow> exec w es s = Some s' \<Longrightarrow> suppressed s'"
proof (induction es arbitrary: s)
  case Nil
  then show ?case by simp
next
  case (Cons e es)
  then show ?case
    by (auto split: option.splits dest: suppressed_step)
qed

lemma select_close_suppressed:
  assumes "inv w s" and "step w HandleSelectClose s = Some s'"
  shows "suppressed s'"
proof -
  from assms(2) obtain i where h: "handler s = HLoop i"
    and s': "s' = s\<lparr>quit := True, needToSend := False, handler := HWait\<rparr>"
    by (auto simp: step_def Handle_select_close_def split: handler_pc.splits if_splits)
  from assms(1) h have "query s \<noteq> QIdle"
    using inv_launched [of w s] by simp
  with assms(1) h have "rw s = None"
    by (simp add: inv_def inv_handler_def)
  with s' show ?thesis by (simp add: suppressed_def)
qed

section \<open>Properties of RequestUrl\<close>

text \<open>
  C9. Whenever the GET completes with a response, whatever its status code (4xx and 5xx
  included), and the body is read without error, RequestUrl returns the body bytes with
  a nil error: the status code is never looked at. A non-nil error is returned exactly
  when the transport fails (which covers the timeout) or the reading of the body fails.
\<close>

theorem RequestUrl_ignores_status:
  "(get url = Inr resp \<and> ReadAll resp = (payload, None) \<longrightarrow> RequestUrl get url = (payload, None))
   \<and> (get url = Inr resp \<longrightarrow> RequestUrl get url = RequestUrl (\<lambda>u. Inr (resp\<lparr>StatusCode := code\<rparr>)) url)
   \<and> (snd (RequestUrl get url) \<noteq> None \<longleftrightarrow>
        (\<exists>err. get url = Inl err) \<or> (\<exists>resp'. get url = Inr resp' \<and> snd (ReadAll resp') \<noteq> None))"
  by (auto simp: RequestUrl_def split: sum.splits)

theorem RequestUrl_ignores_status_witness:
  "RequestUrl (\<lambda>u. Inr \<lparr>StatusCode = 500, ReadAll = (''oops'', None)\<rparr>) ''http://a'' = (''oops'', None)"
  using RequestUrl_ignores_status
    [of "\<lambda>u. Inr \<lparr>StatusCode = 500, ReadAll = (''oops'', None)\<rparr>" "''http://a''"
        "\<lparr>StatusCode = 500, ReadAll = (''oops'', None)\<rparr>" "''oops''" 500]
  by simp

end
